theory Spec2Isabelle
  imports Main "HOL-Library.Multiset"

begin

section \<open>The multi-provider image-generation hook (\<open>useImageGeneration\<close>)\<close>

text \<open>
  The hook keeps five state cells (\<open>images\<close>, \<open>errors\<close>, \<open>timings\<close>,
  \<open>failedProviders\<close>, \<open>isLoading\<close>) and offers \<open>resetState\<close> and
  \<open>startGeneration\<close>. Every state setter of the source is one record update here,
  applied in the order the source queues it. What the environment decides (the clock,
  what the endpoint answers, the order in which the calls settle) is an input of the model.
\<close>

subsection \<open>Data\<close>

type_synonym ProviderKey = string

text \<open>\<open>ImageResult\<close>: \<open>image\<close> is \<open>null\<close> or a reference; \<open>modelId\<close> is
  \<open>providerToModel[provider]\<close>, which is \<open>undefined\<close> for a missing key.\<close>

record ImageResult =
  provider :: ProviderKey
  image :: "string option"
  modelId :: "string option"

record ImageError =
  err_provider :: ProviderKey
  message :: string

record ProviderTiming =
  startTime :: int
  completionTime :: "int option"
  elapsed :: "int option"

record hook_state =
  images :: "ImageResult list"
  errors :: "ImageError list"
  timings :: "ProviderKey \<rightharpoonup> ProviderTiming"
  failedProviders :: "ProviderKey list"
  isLoading :: bool

text \<open>What the endpoint call of one provider comes to. \<open>Rejects\<close> is a value thrown by
  \<open>fetch\<close> or by \<open>response.json()\<close>; \<open>Responds\<close> is a parsed response with its
  \<open>ok\<close> flag, its status and the two fields of the JSON body the hook reads.\<close>

datatype thrown = Error string | NonError

record body =
  data_error :: "string option"
  data_image :: "string option"

record response =
  ok :: bool
  status :: nat
  data :: body

datatype outcome = Rejects thrown | Responds response

text \<open>One call of \<open>generateImage\<close>: its two parameters and the variables its closure
  captures (\<open>prompt\<close>, and \<open>startTime = now\<close>).\<close>

record task =
  t_provider :: ProviderKey
  t_modelId :: "string option"
  t_startTime :: int
  t_prompt :: string

subsection \<open>\<open>resetState\<close>\<close>

text \<open>\<open>initializeProviderRecord\<close> is imported from \<open>@/lib/ai/image-ai\<close>; the record it
  returns is the parameter \<open>emptyRecord\<close>.\<close>

definition resetState :: "(ProviderKey \<rightharpoonup> ProviderTiming) \<Rightarrow> hook_state \<Rightarrow> hook_state" where
  "resetState emptyRecord s =
     (let s1 = s\<lparr>images := []\<rparr>;
          s2 = s1\<lparr>errors := []\<rparr>;
          s3 = s2\<lparr>timings := emptyRecord\<rparr>;
          s4 = s3\<lparr>failedProviders := []\<rparr>
      in s4\<lparr>isLoading := False\<rparr>)"

subsection \<open>The unit of work, \<open>generateImage\<close>\<close>

text \<open>The decimal digits of a number, as the template literal prints \<open>response.status\<close>.\<close>

fun show_nat :: "nat \<Rightarrow> string" where
  "show_nat n =
     (if n < 10 then [char_of (48 + n)]
      else show_nat (n div 10) @ [char_of (48 + n mod 10)])"

declare show_nat.simps [simp del]

text \<open>\<open>data.error || `Server error: ${response.status}`\<close>: an absent or empty
  \<open>error\<close> field is falsy.\<close>

definition server_message :: "response \<Rightarrow> string" where
  "server_message r =
     (case data_error (data r) of
        None \<Rightarrow> ''Server error: '' @ show_nat (status r)
      | Some m \<Rightarrow> if m = [] then ''Server error: '' @ show_nat (status r) else m)"

text \<open>\<open>prevImages.map(item => item.provider === provider ? {...item, image, modelId} : item)\<close>.\<close>

definition set_slot :: "ProviderKey \<Rightarrow> string option \<Rightarrow> string option \<Rightarrow> ImageResult list \<Rightarrow> ImageResult list" where
  "set_slot p img m prevImages =
     map (\<lambda>item. if provider item = p then item\<lparr>image := img, modelId := m\<rparr> else item) prevImages"

text \<open>The \<open>try\<close> block after the call has settled at the instant \<open>completion\<close>
  (the second \<open>Date.now()\<close>). \<open>Inl\<close> is the value thrown into the \<open>catch\<close>; nothing
  is written before a throw. \<open>router.refresh()\<close> writes none of the five cells.\<close>

definition tryBody :: "task \<Rightarrow> outcome \<Rightarrow> int \<Rightarrow> hook_state \<Rightarrow> thrown + hook_state" where
  "tryBody u oc completion s =
     (case oc of
        Rejects e \<Rightarrow> Inl e
      | Responds r \<Rightarrow>
          if \<not> ok r then Inl (Error (server_message r))
          else
            let el = completion - t_startTime u;
                s1 = s\<lparr>timings := (timings s)(t_provider u \<mapsto>
                        \<lparr>startTime = t_startTime u, completionTime = Some completion,
                         elapsed = Some el\<rparr>)\<rparr>;
                s2 = s1\<lparr>images := set_slot (t_provider u) (data_image (data r)) (t_modelId u) (images s1)\<rparr>
            in Inr s2)"

text \<open>\<open>err instanceof Error ? err.message : "An unexpected error occurred"\<close>.\<close>

fun error_message :: "thrown \<Rightarrow> string" where
  "error_message (Error m) = m"
| "error_message NonError = ''An unexpected error occurred''"

definition catchBody :: "task \<Rightarrow> thrown \<Rightarrow> hook_state \<Rightarrow> hook_state" where
  "catchBody u err s =
     (let s1 = s\<lparr>failedProviders := failedProviders s @ [t_provider u]\<rparr>;
          s2 = s1\<lparr>errors := errors s1 @ [\<lparr>err_provider = t_provider u, message = error_message err\<rparr>]\<rparr>
      in s2\<lparr>images := set_slot (t_provider u) None (t_modelId u) (images s2)\<rparr>)"

text \<open>The whole function: \<open>Inr\<close> is the promise fulfilled with the state written,
  \<open>Inl\<close> would be the promise rejected.\<close>

definition generateImage :: "task \<Rightarrow> outcome \<Rightarrow> int \<Rightarrow> hook_state \<Rightarrow> thrown + hook_state" where
  "generateImage u oc completion s =
     (case tryBody u oc completion s of
        Inl err \<Rightarrow> Inr (catchBody u err s)
      | Inr s' \<Rightarrow> Inr s')"

text \<open>Whether the call took the success path (the response arrived and \<open>response.ok\<close>).\<close>

fun succeeds :: "outcome \<Rightarrow> bool" where
  "succeeds (Rejects e) = False"
| "succeeds (Responds r) = ok r"

subsection \<open>\<open>startGeneration\<close>\<close>

text \<open>\<open>Object.fromEntries\<close>: of two entries with one key the later one stays.\<close>

definition fromEntries :: "('k \<times> 'v) list \<Rightarrow> ('k \<rightharpoonup> 'v)" where
  "fromEntries es = map_of (rev es)"

text \<open>A round in flight: the state cells, the calls of \<open>generateImage\<close> that have not
  settled, whether \<open>startGeneration\<close> itself is still suspended at
  \<open>await Promise.all\<close>, and whether one of the promises it waits for has rejected.\<close>

record config =
  st :: hook_state
  pending :: "task list"
  awaiting :: bool
  rejected :: bool

definition mk_task :: "string \<Rightarrow> (ProviderKey \<rightharpoonup> string) \<Rightarrow> int \<Rightarrow> ProviderKey \<Rightarrow> task" where
  "mk_task prompt providerToModel now p =
     \<lparr>t_provider = p, t_modelId = providerToModel p, t_startTime = now, t_prompt = prompt\<rparr>"

text \<open>The synchronous part of \<open>startGeneration\<close>, up to \<open>await Promise.all\<close>;
  \<open>now\<close> is the first \<open>Date.now()\<close>.\<close>

definition startGeneration ::
  "string \<Rightarrow> ProviderKey list \<Rightarrow> (ProviderKey \<rightharpoonup> string) \<Rightarrow> int \<Rightarrow> hook_state \<Rightarrow> config" where
  "startGeneration prompt providers providerToModel now s =
     (let s1 = s\<lparr>isLoading := True\<rparr>;
          s2 = s1\<lparr>images := map (\<lambda>p. \<lparr>provider = p, image = None, modelId = providerToModel p\<rparr>) providers\<rparr>;
          s3 = s2\<lparr>errors := []\<rparr>;
          s4 = s3\<lparr>failedProviders := []\<rparr>;
          s5 = s4\<lparr>timings := fromEntries (map (\<lambda>p. (p, \<lparr>startTime = now, completionTime = None, elapsed = None\<rparr>)) providers)\<rparr>
      in \<lparr>st = s5, pending = map (mk_task prompt providerToModel now) providers,
          awaiting = True, rejected = False\<rparr>)"

text \<open>What can happen next. \<open>Settle p oc t\<close>: a pending call for provider \<open>p\<close> settles
  with \<open>oc\<close> at instant \<open>t\<close> and runs to its end. \<open>Join\<close>: \<open>Promise.all\<close> has
  fulfilled (nothing pending) or rejected, and \<open>startGeneration\<close> runs its
  \<open>finally\<close>. \<open>None\<close>: the event cannot happen in this configuration.\<close>

datatype event = Settle ProviderKey outcome int | Join

fun step :: "event \<Rightarrow> config \<Rightarrow> config option" where
  "step (Settle p oc t) c =
     (case find (\<lambda>u. t_provider u = p) (pending c) of
        None \<Rightarrow> None
      | Some u \<Rightarrow>
          (case generateImage u oc t (st c) of
             Inr s' \<Rightarrow> Some (c\<lparr>st := s', pending := remove1 u (pending c)\<rparr>)
           | Inl err \<Rightarrow> Some (c\<lparr>pending := remove1 u (pending c), rejected := True\<rparr>)))"
| "step Join c =
     (if awaiting c \<and> (rejected c \<or> pending c = [])
      then Some (c\<lparr>st := (st c)\<lparr>isLoading := False\<rparr>, awaiting := False\<rparr>)
      else None)"

fun run :: "event list \<Rightarrow> config \<Rightarrow> config option" where
  "run [] c = Some c"
| "run (e # es) c = (case step e c of None \<Rightarrow> None | Some c' \<Rightarrow> run es c')"

subsection \<open>Vocabulary of the properties\<close>

text \<open>The Image Result slots of a provider, and whether one of them holds an image.\<close>

definition slots_of :: "ProviderKey \<Rightarrow> hook_state \<Rightarrow> ImageResult list" where
  "slots_of p s = filter (\<lambda>item. provider item = p) (images s)"

definition holds_image :: "ProviderKey \<Rightarrow> hook_state \<Rightarrow> bool" where
  "holds_image p s = (\<exists>item \<in> set (images s). provider item = p \<and> image item \<noteq> None)"

text \<open>The image a call writes into its provider's slots: \<open>data.image ?? null\<close> on the
  success path, \<open>null\<close> in the \<open>catch\<close>.\<close>

fun delivered :: "outcome \<Rightarrow> string option" where
  "delivered (Rejects e) = None"
| "delivered (Responds r) = (if ok r then data_image (data r) else None)"

text \<open>The providers whose calls settle in a sequence of events, in that order.\<close>

fun settled :: "event list \<Rightarrow> ProviderKey list" where
  "settled [] = []"
| "settled (Settle p oc t # es) = p # settled es"
| "settled (Join # es) = settled es"

text \<open>The two shapes of a Timing slot: as \<open>startGeneration\<close> writes it, and as the
  success path writes it.\<close>

definition fresh_timing :: "int \<Rightarrow> ProviderTiming" where
  "fresh_timing now = \<lparr>startTime = now, completionTime = None, elapsed = None\<rparr>"

definition done_timing :: "int \<Rightarrow> int \<Rightarrow> ProviderTiming" where
  "done_timing now t = \<lparr>startTime = now, completionTime = Some t, elapsed = Some (t - now)\<rparr>"

text \<open>What holds of every configuration of a round started by
  \<open>startGeneration prompt providers providerToModel\<close> at the instant \<open>now\<close>.\<close>

definition round_inv :: "string \<Rightarrow> ProviderKey list \<Rightarrow> (ProviderKey \<rightharpoonup> string) \<Rightarrow> int \<Rightarrow> config \<Rightarrow> bool" where
  "round_inv prompt providers providerToModel now c \<longleftrightarrow>
     map provider (images (st c)) = providers
   \<and> dom (timings (st c)) = set providers
   \<and> (\<forall>p tm. timings (st c) p = Some tm \<longrightarrow> startTime tm = now)
   \<and> failedProviders (st c) = map err_provider (errors (st c))
   \<and> \<not> rejected c
   \<and> set (pending c) \<subseteq> mk_task prompt providerToModel now ` set providers
   \<and> isLoading (st c) = awaiting c
   \<and> (\<not> awaiting c \<longrightarrow> pending c = [])"

text \<open>The four cells the end-to-end scenario speaks of.\<close>

definition observed :: "config \<Rightarrow> ImageResult list \<times> ImageError list \<times> ProviderKey list \<times> bool" where
  "observed c = (images (st c), errors (st c), failedProviders (st c), isLoading (st c))"

subsection \<open>Concrete rounds\<close>

text \<open>The state of the hook before any round, with an empty timings record, and two
  shapes of response.\<close>

definition empty_state :: hook_state where
  "empty_state = \<lparr>images = [], errors = [], timings = Map.empty, failedProviders = [], isLoading = False\<rparr>"

definition ok_response :: "string option \<Rightarrow> response" where
  "ok_response img = \<lparr>ok = True, status = 200, data = \<lparr>data_error = None, data_image = img\<rparr>\<rparr>"

definition error_response :: "nat \<Rightarrow> string option \<Rightarrow> response" where
  "error_response code msg = \<lparr>ok = False, status = code, data = \<lparr>data_error = msg, data_image = None\<rparr>\<rparr>"

text \<open>The round of the end-to-end scenario with the clock at 0: beta's call rejects at
  10, alpha's call answers with an image at 50, then the join. \<open>scenario_beta_failed\<close> is
  the configuration after the first event, \<open>scenario_settled\<close> after the second,
  \<open>scenario_final\<close> after the join; \<open>scenario_no_image\<close> is what the second event
  leads to when alpha's answer carries no image.\<close>

definition scenario_events :: "event list" where
  "scenario_events =
     [Settle ''beta'' (Rejects (Error ''rate limited'')) 10,
      Settle ''alpha'' (Responds (ok_response (Some ''url1''))) 50,
      Join]"

definition scenario_final :: config where
  "scenario_final =
     \<lparr>st = \<lparr>images = [\<lparr>provider = ''alpha'', image = Some ''url1'', modelId = Some ''m1''\<rparr>,
                      \<lparr>provider = ''beta'', image = None, modelId = Some ''m2''\<rparr>],
            errors = [\<lparr>err_provider = ''beta'', message = ''rate limited''\<rparr>],
            timings = [''alpha'' \<mapsto> \<lparr>startTime = 0, completionTime = Some 50, elapsed = Some 50\<rparr>,
                       ''beta'' \<mapsto> \<lparr>startTime = 0, completionTime = None, elapsed = None\<rparr>],
            failedProviders = [''beta''],
            isLoading = False\<rparr>,
      pending = [], awaiting = False, rejected = False\<rparr>"

definition scenario_settled :: config where
  "scenario_settled = scenario_final\<lparr>st := (st scenario_final)\<lparr>isLoading := True\<rparr>, awaiting := True\<rparr>"

definition scenario_beta_failed :: config where
  "scenario_beta_failed =
     \<lparr>st = \<lparr>images = [\<lparr>provider = ''alpha'', image = None, modelId = Some ''m1''\<rparr>,
                      \<lparr>provider = ''beta'', image = None, modelId = Some ''m2''\<rparr>],
            errors = [\<lparr>err_provider = ''beta'', message = ''rate limited''\<rparr>],
            timings = [''alpha'' \<mapsto> \<lparr>startTime = 0, completionTime = None, elapsed = None\<rparr>,
                       ''beta'' \<mapsto> \<lparr>startTime = 0, completionTime = None, elapsed = None\<rparr>],
            failedProviders = [''beta''],
            isLoading = True\<rparr>,
      pending = [mk_task ''a cat'' [''alpha'' \<mapsto> ''m1'', ''beta'' \<mapsto> ''m2''] 0 ''alpha''],
      awaiting = True, rejected = False\<rparr>"

definition scenario_no_image :: config where
  "scenario_no_image =
     \<lparr>st = \<lparr>images = [\<lparr>provider = ''alpha'', image = None, modelId = Some ''m1''\<rparr>,
                      \<lparr>provider = ''beta'', image = None, modelId = Some ''m2''\<rparr>],
            errors = [\<lparr>err_provider = ''beta'', message = ''rate limited''\<rparr>],
            timings = [''alpha'' \<mapsto> \<lparr>startTime = 0, completionTime = Some 50, elapsed = Some 50\<rparr>,
                       ''beta'' \<mapsto> \<lparr>startTime = 0, completionTime = None, elapsed = None\<rparr>],
            failedProviders = [''beta''],
            isLoading = True\<rparr>,
      pending = [], awaiting = True, rejected = False\<rparr>"

text \<open>A state as an earlier round for the provider gamma leaves it.\<close>

definition previous_round :: hook_state where
  "previous_round =
     \<lparr>images = [\<lparr>provider = ''gamma'', image = Some ''old'', modelId = Some ''m3''\<rparr>],
      errors = [],
      timings = [''gamma'' \<mapsto> \<lparr>startTime = 0, completionTime = Some 7, elapsed = Some 7\<rparr>],
      failedProviders = [],
      isLoading = False\<rparr>"

text \<open>The end of a round with the one provider alpha, whose call succeeds at 50 without
  an image.\<close>

definition lone_no_image :: config where
  "lone_no_image =
     \<lparr>st = \<lparr>images = [\<lparr>provider = ''alpha'', image = None, modelId = Some ''m1''\<rparr>],
            errors = [],
            timings = [''alpha'' \<mapsto> \<lparr>startTime = 0, completionTime = Some 50, elapsed = Some 50\<rparr>],
            failedProviders = [],
            isLoading = False\<rparr>,
      pending = [], awaiting = False, rejected = False\<rparr>"

text \<open>The end of a round in which alpha is selected twice: one call rejects at 10, the
  other answers with an image at 50.\<close>

definition repeated_final :: config where
  "repeated_final =
     \<lparr>st = \<lparr>images = [\<lparr>provider = ''alpha'', image = Some ''url1'', modelId = Some ''m1''\<rparr>,
                      \<lparr>provider = ''alpha'', image = Some ''url1'', modelId = Some ''m1''\<rparr>],
            errors = [\<lparr>err_provider = ''alpha'', message = ''rate limited''\<rparr>],
            timings = [''alpha'' \<mapsto> \<lparr>startTime = 0, completionTime = Some 50, elapsed = Some 50\<rparr>],
            failedProviders = [''alpha''],
            isLoading = False\<rparr>,
      pending = [], awaiting = False, rejected = False\<rparr>"

section \<open>Properties\<close>

subsection \<open>What one call of \<open>generateImage\<close> writes\<close>

lemma set_slot_provider: "map provider (set_slot p img m xs) = map provider xs"
  unfolding set_slot_def by (induction xs) simp_all

lemma set_slot_other:
  "q \<noteq> p \<Longrightarrow> filter (\<lambda>item. provider item = q) (set_slot p img m xs) = filter (\<lambda>item. provider item = q) xs"
  unfolding set_slot_def by (induction xs) simp_all

lemma set_slot_own:
  assumes "item \<in> set (set_slot p img m xs)" and "provider item = p"
  shows "image item = img"
proof -
  from assms(1) obtain x where x: "x \<in> set xs"
    and item: "item = (if provider x = p then x\<lparr>image := img, modelId := m\<rparr> else x)"
    unfolding set_slot_def by (auto simp del: split_paired_Ex)
  show ?thesis
  proof (cases "provider x = p")
    case True
    with item show ?thesis by simp
  next
    case False
    with item assms(2) show ?thesis by simp
  qed
qed

lemma tryBody_fail: "\<not> succeeds oc \<Longrightarrow> \<exists>err. tryBody u oc t s = Inl err"
  by (cases oc) (simp_all add: tryBody_def)

lemma tryBody_ok:
  "succeeds oc \<Longrightarrow> tryBody u oc t s =
     Inr (s\<lparr>timings := (timings s)(t_provider u \<mapsto> done_timing (t_startTime u) t),
            images := set_slot (t_provider u) (delivered oc) (t_modelId u) (images s)\<rparr>)"
  by (cases oc) (simp_all add: tryBody_def done_timing_def Let_def)

lemma generateImage_fail:
  "\<not> succeeds oc \<Longrightarrow> \<exists>err. tryBody u oc t s = Inl err \<and> generateImage u oc t s = Inr (catchBody u err s)"
  using tryBody_fail [of oc u t s] by (auto simp: generateImage_def)

lemma generateImage_ok:
  "succeeds oc \<Longrightarrow> generateImage u oc t s =
     Inr (s\<lparr>timings := (timings s)(t_provider u \<mapsto> done_timing (t_startTime u) t),
            images := set_slot (t_provider u) (delivered oc) (t_modelId u) (images s)\<rparr>)"
  by (simp add: generateImage_def tryBody_ok)

lemma generateImage_total: "\<exists>s'. generateImage u oc t s = Inr s'"
  by (simp add: generateImage_def split: sum.splits)

lemma generateImage_not_Inl: "generateImage u oc t s \<noteq> Inl err"
  by (simp add: generateImage_def split: sum.splits)

subsection \<open>Steps and runs\<close>

lemma step_SettleE:
  assumes "step (Settle p oc t) c = Some c'"
  obtains u s' where "find (\<lambda>u. t_provider u = p) (pending c) = Some u"
    and "generateImage u oc t (st c) = Inr s'"
    and "c' = c\<lparr>st := s', pending := remove1 u (pending c)\<rparr>"
proof (cases "find (\<lambda>u. t_provider u = p) (pending c)")
  case None
  with assms show ?thesis by simp
next
  case (Some u)
  obtain s' where g: "generateImage u oc t (st c) = Inr s'"
    using generateImage_total by blast
  from assms Some g have "c' = c\<lparr>st := s', pending := remove1 u (pending c)\<rparr>"
    by simp
  with Some g that show ?thesis by blast
qed

lemma find_task: "find (\<lambda>u. t_provider u = p) xs = Some u \<Longrightarrow> t_provider u = p \<and> u \<in> set xs"
  by (auto simp: find_Some_iff)

lemma find_task_ex: "u \<in> set xs \<Longrightarrow> \<exists>v. find (\<lambda>w. t_provider w = t_provider u) xs = Some v"
  by (cases "find (\<lambda>w. t_provider w = t_provider u) xs") (auto simp: find_None_iff)

lemma run_append: "run (xs @ ys) c = (case run xs c of None \<Rightarrow> None | Some c' \<Rightarrow> run ys c')"
  by (induction xs arbitrary: c) (auto split: option.splits)

lemma settled_mem: "p \<in> set (settled evs) \<longleftrightarrow> (\<exists>oc t. Settle p oc t \<in> set evs)"
  by (induction evs rule: settled.induct) auto

lemma settled_append: "settled (xs @ ys) = settled xs @ settled ys"
  by (induction xs rule: settled.induct) auto

lemma catchBody_fields:
  "failedProviders (catchBody u err s) = failedProviders s @ [t_provider u]"
  "errors (catchBody u err s) = errors s @ [\<lparr>err_provider = t_provider u, message = error_message err\<rparr>]"
  "images (catchBody u err s) = set_slot (t_provider u) None (t_modelId u) (images s)"
  "timings (catchBody u err s) = timings s"
  "isLoading (catchBody u err s) = isLoading s"
  by (simp_all add: catchBody_def Let_def)

lemma delivered_fail: "\<not> succeeds oc \<Longrightarrow> delivered oc = None"
  by (cases oc) simp_all

lemma gi_ok_eq:
  "generateImage u oc t s = Inr s' \<Longrightarrow> succeeds oc \<Longrightarrow>
     s' = s\<lparr>timings := (timings s)(t_provider u \<mapsto> done_timing (t_startTime u) t),
            images := set_slot (t_provider u) (delivered oc) (t_modelId u) (images s)\<rparr>"
  by (simp add: generateImage_ok)

lemma gi_fail_eq:
  assumes "generateImage u oc t s = Inr s'" and "\<not> succeeds oc"
  shows "\<exists>err. tryBody u oc t s = Inl err \<and> s' = catchBody u err s"
proof -
  from generateImage_fail [OF assms(2), of u t s] obtain err
    where "tryBody u oc t s = Inl err" and "generateImage u oc t s = Inr (catchBody u err s)"
    by blast
  with assms(1) show ?thesis by simp
qed

lemma gi_images:
  assumes "generateImage u oc t s = Inr s'"
  shows "images s' = set_slot (t_provider u) (delivered oc) (t_modelId u) (images s)"
proof (cases "succeeds oc")
  case True
  from gi_ok_eq [OF assms True] show ?thesis by simp
next
  case False
  from gi_fail_eq [OF assms False] show ?thesis
    by (auto simp: catchBody_fields delivered_fail [OF False])
qed

lemma gi_isLoading:
  assumes "generateImage u oc t s = Inr s'"
  shows "isLoading s' = isLoading s"
proof (cases "succeeds oc")
  case True
  from gi_ok_eq [OF assms True] show ?thesis by simp
next
  case False
  from gi_fail_eq [OF assms False] show ?thesis
    by (auto simp: catchBody_fields)
qed

lemma gi_timings:
  assumes "generateImage u oc t s = Inr s'"
  shows "timings s' = (if succeeds oc then (timings s)(t_provider u \<mapsto> done_timing (t_startTime u) t) else timings s)"
proof (cases "succeeds oc")
  case True
  from gi_ok_eq [OF assms True] True show ?thesis by simp
next
  case False
  from gi_fail_eq [OF assms False] False show ?thesis
    by (auto simp: catchBody_fields)
qed

lemma gi_failed:
  assumes "generateImage u oc t s = Inr s'"
  shows "failedProviders s' = (if succeeds oc then failedProviders s else failedProviders s @ [t_provider u])"
proof (cases "succeeds oc")
  case True
  from gi_ok_eq [OF assms True] True show ?thesis by simp
next
  case False
  from gi_fail_eq [OF assms False] False show ?thesis
    by (auto simp: catchBody_fields)
qed

lemma gi_errors:
  assumes "generateImage u oc t s = Inr s'"
  shows "errors s' = (if succeeds oc then errors s
           else errors s @ [\<lparr>err_provider = t_provider u, message = error_message (projl (tryBody u oc t s))\<rparr>])"
proof (cases "succeeds oc")
  case True
  from gi_ok_eq [OF assms True] True show ?thesis by simp
next
  case False
  from gi_fail_eq [OF assms False] False show ?thesis
    by (auto simp: catchBody_fields)
qed

subsection \<open>The invariant of a round\<close>

lemma fromEntries_const:
  "fromEntries (map (\<lambda>p. (p, v)) ps) q = (if q \<in> set ps then Some v else None)"
proof -
  have "map_of (map (\<lambda>p. (p, v)) xs) q = (if q \<in> set xs then Some v else None)" for xs
    by (induction xs) simp_all
  from this [of "rev ps"] show ?thesis
    by (simp add: fromEntries_def rev_map)
qed

lemma start_fields:
  "images (st (startGeneration prompt providers m now s)) =
     map (\<lambda>p. \<lparr>provider = p, image = None, modelId = m p\<rparr>) providers"
  "errors (st (startGeneration prompt providers m now s)) = []"
  "failedProviders (st (startGeneration prompt providers m now s)) = []"
  "isLoading (st (startGeneration prompt providers m now s)) = True"
  "timings (st (startGeneration prompt providers m now s)) q =
     (if q \<in> set providers then Some (fresh_timing now) else None)"
  "pending (startGeneration prompt providers m now s) = map (mk_task prompt m now) providers"
  "awaiting (startGeneration prompt providers m now s) = True"
  "rejected (startGeneration prompt providers m now s) = False"
  by (simp_all add: startGeneration_def Let_def fromEntries_const fresh_timing_def)

lemma mk_task_fields:
  "t_provider (mk_task prompt m now p) = p"
  "t_modelId (mk_task prompt m now p) = m p"
  "t_startTime (mk_task prompt m now p) = now"
  by (simp_all add: mk_task_def)

lemma inv_start: "round_inv prompt providers m now (startGeneration prompt providers m now s)"
  unfolding round_inv_def
  by (auto simp: start_fields comp_def fresh_timing_def dom_def split: if_splits)

lemma step_Join_Some:
  assumes "step Join c = Some c'"
  shows "awaiting c" and "rejected c \<or> pending c = []"
    and "c' = c\<lparr>st := (st c)\<lparr>isLoading := False\<rparr>, awaiting := False\<rparr>"
proof -
  from assms have pre: "awaiting c \<and> (rejected c \<or> pending c = [])"
    by (cases "awaiting c \<and> (rejected c \<or> pending c = [])") simp_all
  then show "awaiting c" and "rejected c \<or> pending c = []" by simp_all
  from assms pre have "Some (c\<lparr>st := (st c)\<lparr>isLoading := False\<rparr>, awaiting := False\<rparr>) = Some c'"
    by simp
  then show "c' = c\<lparr>st := (st c)\<lparr>isLoading := False\<rparr>, awaiting := False\<rparr>"
    by simp
qed

lemma inv_step:
  assumes inv: "round_inv prompt providers m now c" and stp: "step e c = Some c'"
  shows "round_inv prompt providers m now c'"
proof (cases e)
  case (Settle p oc t)
  with stp have "step (Settle p oc t) c = Some c'" by simp
  then obtain u s' where f: "find (\<lambda>u. t_provider u = p) (pending c) = Some u"
    and g: "generateImage u oc t (st c) = Inr s'"
    and c': "c' = c\<lparr>st := s', pending := remove1 u (pending c)\<rparr>"
    by (rule step_SettleE)
  from find_task [OF f] have u: "t_provider u = p" "u \<in> set (pending c)" by simp_all
  with inv have mk: "u \<in> mk_task prompt m now ` set providers"
    unfolding round_inv_def by blast
  then have p_in: "t_provider u \<in> set providers" and st_u: "t_startTime u = now"
    by (auto simp: mk_task_fields)
  have 1: "map provider (images (st c')) = providers"
    using inv c' by (simp add: round_inv_def gi_images [OF g] set_slot_provider)
  have 2: "dom (timings (st c')) = set providers"
    using inv c' p_in by (auto simp: round_inv_def gi_timings [OF g])
  have 3: "\<forall>q tm. timings (st c') q = Some tm \<longrightarrow> startTime tm = now"
    using inv c' st_u by (auto simp: round_inv_def gi_timings [OF g] done_timing_def split: if_splits)
  have 4: "failedProviders (st c') = map err_provider (errors (st c'))"
    using inv c' by (simp add: round_inv_def gi_failed [OF g] gi_errors [OF g])
  have 5: "\<not> rejected c'" using inv c' by (simp add: round_inv_def)
  have 6: "set (pending c') \<subseteq> mk_task prompt m now ` set providers"
  proof -
    have "set (remove1 u (pending c)) \<subseteq> set (pending c)" by (rule set_remove1_subset)
    with inv c' show ?thesis unfolding round_inv_def by auto
  qed
  have 7: "isLoading (st c') = awaiting c'"
    using inv c' by (simp add: round_inv_def gi_isLoading [OF g])
  have 8: "\<not> awaiting c' \<longrightarrow> pending c' = []"
    using inv c' by (simp add: round_inv_def)
  from 1 2 3 4 5 6 7 8 show ?thesis unfolding round_inv_def by blast
next
  case Join
  with stp have j: "step Join c = Some c'" by simp
  note pre = step_Join_Some(2) [OF j] and c' = step_Join_Some(3) [OF j]
  from inv have "\<not> rejected c" by (simp add: round_inv_def)
  with pre have "pending c = []" by simp
  with inv c' show ?thesis by (simp add: round_inv_def)
qed

lemma inv_run:
  "round_inv prompt providers m now c \<Longrightarrow> run evs c = Some c' \<Longrightarrow> round_inv prompt providers m now c'"
proof (induction evs arbitrary: c)
  case Nil
  then show ?case by simp
next
  case (Cons e es)
  from Cons.prems(2) obtain c1 where s: "step e c = Some c1" and r: "run es c1 = Some c'"
    by (auto split: option.splits)
  from Cons.IH [OF inv_step [OF Cons.prems(1) s] r] show ?case .
qed

lemma reach_inv:
  "run evs (startGeneration prompt providers m now s) = Some c \<Longrightarrow> round_inv prompt providers m now c"
  by (rule inv_run [OF inv_start])

subsection \<open>What a sequence of events leaves\<close>

lemma mset_map_remove1:
  "u \<in> set xs \<Longrightarrow> mset (map f (remove1 u xs)) + {#f u#} = mset (map f xs)"
  by (induction xs) auto

lemma step_cases:
  assumes "step e c = Some c'"
  obtains (Settle) p oc t u s' where "e = Settle p oc t"
      and "find (\<lambda>u. t_provider u = p) (pending c) = Some u"
      and "t_provider u = p" and "u \<in> set (pending c)"
      and "generateImage u oc t (st c) = Inr s'"
      and "c' = c\<lparr>st := s', pending := remove1 u (pending c)\<rparr>"
    | (Join) "e = Join" and "awaiting c" and "rejected c \<or> pending c = []"
      and "c' = c\<lparr>st := (st c)\<lparr>isLoading := False\<rparr>, awaiting := False\<rparr>"
proof (cases e)
  case (Settle p oc t)
  with assms have "step (Settle p oc t) c = Some c'" by simp
  then obtain u s' where f: "find (\<lambda>u. t_provider u = p) (pending c) = Some u"
    and g: "generateImage u oc t (st c) = Inr s'"
    and c': "c' = c\<lparr>st := s', pending := remove1 u (pending c)\<rparr>"
    by (rule step_SettleE)
  from find_task [OF f] have "t_provider u = p" "u \<in> set (pending c)" by simp_all
  with Settle f g c' that(1) show ?thesis by blast
next
  case Join
  with assms have j: "step Join c = Some c'" by simp
  from Join step_Join_Some [OF j] that(2) show ?thesis by blast
qed

lemma run_ConsE:
  assumes "run (e # es) c = Some c'"
  obtains c1 where "step e c = Some c1" and "run es c1 = Some c'"
  using assms by (cases "step e c") simp_all

lemma pending_mset:
  "run evs c = Some c' \<Longrightarrow>
     mset (map t_provider (pending c')) + mset (settled evs) = mset (map t_provider (pending c))"
proof (induction evs arbitrary: c)
  case Nil
  then show ?case by simp
next
  case (Cons e es)
  from Cons.prems obtain c1 where s: "step e c = Some c1" and r: "run es c1 = Some c'"
    by (rule run_ConsE)
  note IH = Cons.IH [OF r]
  from s show ?case
  proof (cases rule: step_cases)
    case (Settle p oc t u s')
    from Settle(4) have "mset (map t_provider (remove1 u (pending c))) + {#t_provider u#} = mset (map t_provider (pending c))"
      by (rule mset_map_remove1)
    with IH Settle(1,3,6) show ?thesis by (simp add: add.assoc)
  next
    case Join
    with IH show ?thesis by simp
  qed
qed

lemma failed_trace:
  "run evs c = Some c' \<Longrightarrow>
     set (failedProviders (st c')) =
       set (failedProviders (st c)) \<union> {p. \<exists>oc t. Settle p oc t \<in> set evs \<and> \<not> succeeds oc}"
proof (induction evs arbitrary: c)
  case Nil
  then show ?case by simp
next
  case (Cons e es)
  from Cons.prems obtain c1 where s: "step e c = Some c1" and r: "run es c1 = Some c'"
    by (rule run_ConsE)
  note IH = Cons.IH [OF r]
  from s show ?case
  proof (cases rule: step_cases)
    case (Settle p oc t u s')
    have "set (failedProviders (st c1)) = set (failedProviders (st c)) \<union> (if succeeds oc then {} else {p})"
      using Settle(3,6) by (simp add: gi_failed [OF Settle(5)])
    with IH Settle(1) show ?thesis by auto
  next
    case Join
    with IH show ?thesis by simp
  qed
qed

lemma timing_frame:
  "run evs c = Some c' \<Longrightarrow> (\<And>oc t. Settle p oc t \<in> set evs \<Longrightarrow> \<not> succeeds oc) \<Longrightarrow>
     timings (st c') p = timings (st c) p"
proof (induction evs arbitrary: c)
  case Nil
  then show ?case by simp
next
  case (Cons e es)
  from Cons.prems(1) obtain c1 where s: "step e c = Some c1" and r: "run es c1 = Some c'"
    by (rule run_ConsE)
  have IH: "timings (st c') p = timings (st c1) p"
  proof (rule Cons.IH [OF r])
    fix oc t
    assume "Settle p oc t \<in> set es"
    then have "Settle p oc t \<in> set (e # es)" by simp
    then show "\<not> succeeds oc" by (rule Cons.prems(2))
  qed
  from s show ?case
  proof (cases rule: step_cases)
    case (Settle q oc t u s')
    have "timings (st c1) p = timings (st c) p"
    proof (cases "succeeds oc")
      case True
      have "q \<noteq> p"
      proof
        assume "q = p"
        with Settle(1) have "Settle p oc t \<in> set (e # es)" by simp
        then have "\<not> succeeds oc" by (rule Cons.prems(2))
        with True show False by simp
      qed
      with Settle(3,6) True show ?thesis by (simp add: gi_timings [OF Settle(5)])
    next
      case False
      with Settle(6) show ?thesis by (simp add: gi_timings [OF Settle(5)])
    qed
    with IH show ?thesis by simp
  next
    case Join
    with IH show ?thesis by simp
  qed
qed

lemma slots_of_set_slot_other:
  "q \<noteq> p \<Longrightarrow> slots_of q (s\<lparr>images := set_slot p img m (images s)\<rparr>) = slots_of q s"
  by (simp add: slots_of_def set_slot_other)

lemma gi_slots_other:
  assumes "generateImage u oc t s = Inr s'" and "q \<noteq> t_provider u"
  shows "slots_of q s' = slots_of q s"
  using assms(2) by (simp add: slots_of_def gi_images [OF assms(1)] set_slot_other)

lemma gi_slots_own:
  assumes "generateImage u oc t s = Inr s'" and "item \<in> set (slots_of (t_provider u) s')"
  shows "image item = delivered oc"
proof -
  from assms(2) have "item \<in> set (set_slot (t_provider u) (delivered oc) (t_modelId u) (images s))"
    and "provider item = t_provider u"
    by (simp_all add: slots_of_def gi_images [OF assms(1)])
  then show ?thesis by (rule set_slot_own)
qed

lemma slots_frame:
  "run evs c = Some c' \<Longrightarrow> p \<notin> set (settled evs) \<Longrightarrow> slots_of p (st c') = slots_of p (st c)"
proof (induction evs arbitrary: c)
  case Nil
  then show ?case by simp
next
  case (Cons e es)
  from Cons.prems(1) obtain c1 where s: "step e c = Some c1" and r: "run es c1 = Some c'"
    by (rule run_ConsE)
  from s show ?case
  proof (cases rule: step_cases)
    case (Settle q oc t u s')
    with Cons.prems(2) have ne: "p \<noteq> t_provider u" and rest: "p \<notin> set (settled es)" by auto
    from Cons.IH [OF r rest] gi_slots_other [OF Settle(5) ne] Settle(6) show ?thesis by simp
  next
    case Join
    with Cons.prems(2) have rest: "p \<notin> set (settled es)" by simp
    from Cons.IH [OF r rest] Join show ?thesis by (simp add: slots_of_def)
  qed
qed

lemma step_enabled:
  assumes "u \<in> set (pending c)"
  obtains v s' where "find (\<lambda>w. t_provider w = t_provider u) (pending c) = Some v"
    and "t_provider v = t_provider u" and "v \<in> set (pending c)"
    and "generateImage v oc t (st c) = Inr s'"
    and "step (Settle (t_provider u) oc t) c = Some (c\<lparr>st := s', pending := remove1 v (pending c)\<rparr>)"
proof -
  from find_task_ex [OF assms] obtain v
    where f: "find (\<lambda>w. t_provider w = t_provider u) (pending c) = Some v" by blast
  from find_task [OF f] have v: "t_provider v = t_provider u" "v \<in> set (pending c)" by simp_all
  from generateImage_total obtain s' where g: "generateImage v oc t (st c) = Inr s'" by blast
  from f g have "step (Settle (t_provider u) oc t) c = Some (c\<lparr>st := s', pending := remove1 v (pending c)\<rparr>)"
    by simp
  with f v g that show ?thesis by blast
qed

lemma join_trace:
  "run evs c = Some c' \<Longrightarrow> awaiting c \<Longrightarrow> \<not> awaiting c' \<Longrightarrow> Join \<in> set evs"
proof (induction evs arbitrary: c)
  case Nil
  then show ?case by simp
next
  case (Cons e es)
  from Cons.prems(1) obtain c1 where s: "step e c = Some c1" and r: "run es c1 = Some c'"
    by (rule run_ConsE)
  from s show ?case
  proof (cases rule: step_cases)
    case (Settle p oc t u s')
    with Cons.prems(2) have "awaiting c1" by simp
    from Cons.IH [OF r this Cons.prems(3)] show ?thesis by simp
  next
    case Join
    then show ?thesis by simp
  qed
qed

lemma round_over:
  assumes "round_inv prompt providers m now c" and "\<not> awaiting c"
  shows "step e c = None"
proof (cases e)
  case (Settle p oc t)
  from assms have "pending c = []" by (simp add: round_inv_def)
  with Settle show ?thesis by simp
next
  case Join
  with assms(2) show ?thesis by simp
qed

lemma join_enabled:
  assumes "pending c = []" and "awaiting c"
  shows "step Join c = Some (c\<lparr>st := (st c)\<lparr>isLoading := False\<rparr>, awaiting := False\<rparr>)"
  using assms by simp

lemma settled_all:
  assumes "run evs (startGeneration prompt providers m now s) = Some c"
  shows "mset (map t_provider (pending c)) + mset (settled evs) = mset providers"
proof -
  have "map t_provider (map (mk_task prompt m now) providers) = providers"
    by (simp add: comp_def mk_task_fields)
  then have "map t_provider (pending (startGeneration prompt providers m now s)) = providers"
    by (simp only: start_fields)
  with pending_mset [OF assms] show ?thesis by (simp only:)
qed

lemma settled_in_providers:
  assumes "run evs (startGeneration prompt providers m now s) = Some c"
    and "Settle p oc t \<in> set evs"
  shows "p \<in> set providers"
proof -
  from assms(2) have "p \<in># mset (settled evs)" by (auto simp: settled_mem)
  then have "p \<in># mset (map t_provider (pending c)) + mset (settled evs)" by simp
  with settled_all [OF assms(1)] show ?thesis by simp
qed

lemma pending_task:
  assumes "run evs (startGeneration prompt providers m now s) = Some c" and "u \<in> set (pending c)"
  shows "t_provider u \<in> set providers" and "t_startTime u = now" and "t_modelId u = m (t_provider u)"
proof -
  from reach_inv [OF assms(1)] assms(2) have "u \<in> mk_task prompt m now ` set providers"
    unfolding round_inv_def by blast
  then obtain p where "p \<in> set providers" and "u = mk_task prompt m now p" by blast
  then show "t_provider u \<in> set providers" and "t_startTime u = now"
    and "t_modelId u = m (t_provider u)"
    by (simp_all add: mk_task_fields)
qed

lemma holds_image_slots:
  "holds_image p s \<longleftrightarrow> (\<exists>item \<in> set (slots_of p s). image item \<noteq> None)"
  by (auto simp: holds_image_def slots_of_def)

lemma mset_split_disjoint:
  assumes "A + B = mset xs" and "distinct xs" and "x \<in># A"
  shows "x \<notin># B"
proof
  assume "x \<in># B"
  then have b: "0 < count B x" by (simp only: count_greater_zero_iff)
  from assms(3) have a: "0 < count A x" by (simp only: count_greater_zero_iff)
  from assms(1) have "count (mset xs) x = count A x + count B x"
    by (simp only: count_union [symmetric])
  moreover from assms(2) have "count (mset xs) x \<le> 1"
    by (simp only: distinct_count_atmost_1) (simp split: if_splits)
  ultimately show False using a b by linarith
qed

lemma pending_not_settled:
  assumes "run evs (startGeneration prompt providers m now s) = Some c"
    and "distinct providers" and "u \<in> set (pending c)"
  shows "t_provider u \<notin> set (settled evs)"
proof -
  from assms(3) have "t_provider u \<in># mset (map t_provider (pending c))" by simp
  from mset_split_disjoint [OF settled_all [OF assms(1)] assms(2) this] show ?thesis by simp
qed

lemma slots_of_absent:
  assumes "map provider (images s) = ps" and "p \<notin> set ps"
  shows "slots_of p s = []"
proof -
  from assms have "p \<notin> set (map provider (images s))" by simp
  then have "\<forall>item \<in> set (images s). provider item \<noteq> p" by auto
  then show ?thesis by (simp add: slots_of_def filter_empty_conv)
qed

lemma filter_eq_distinct: "distinct ps \<Longrightarrow> p \<in> set ps \<Longrightarrow> filter (\<lambda>q. q = p) ps = [p]"
proof (induction ps)
  case Nil
  then show ?case by simp
next
  case (Cons a ps)
  show ?case
  proof (cases "a = p")
    case True
    with Cons.prems have "p \<notin> set ps" by simp
    then have "filter (\<lambda>q. q = p) ps = []" by (auto simp: filter_empty_conv)
    with True show ?thesis by simp
  next
    case False
    with Cons show ?thesis by simp
  qed
qed

lemma slots_of_single:
  assumes "map provider (images s) = ps" and "distinct ps" and "p \<in> set ps"
  shows "length (slots_of p s) = 1"
proof -
  have aux: "length (filter (\<lambda>item. provider item = p) xs) = length (filter (\<lambda>q. q = p) (map provider xs))"
    for xs :: "ImageResult list"
    by (induction xs) simp_all
  have "length (slots_of p s) = length (filter (\<lambda>q. q = p) (map provider (images s)))"
    unfolding slots_of_def by (rule aux)
  also have "\<dots> = length (filter (\<lambda>q. q = p) ps)" by (simp only: assms(1))
  also have "\<dots> = length [p]" by (simp only: filter_eq_distinct [OF assms(2,3)])
  finally show ?thesis by simp
qed

lemma sole_settlement:
  assumes "run evs (startGeneration prompt providers m now s) = Some c"
    and "distinct providers" and "pending c = []" and "p \<in> set providers"
  obtains xs oc t ys where "evs = xs @ Settle p oc t # ys"
    and "p \<notin> set (settled xs)" and "p \<notin> set (settled ys)"
proof -
  from settled_all [OF assms(1)] assms(3) have ms: "mset (settled evs) = mset providers" by simp
  then have "set (settled evs) = set providers" by (rule mset_eq_setD)
  with assms(4) have "p \<in> set (settled evs)" by simp
  then obtain oc t where "Settle p oc t \<in> set evs" unfolding settled_mem by blast
  from split_list [OF this] obtain xs ys where evs: "evs = xs @ Settle p oc t # ys" by blast
  from mset_eq_imp_distinct_iff [OF ms] assms(2) have "distinct (settled evs)" by blast
  with evs have "p \<notin> set (settled xs)" "p \<notin> set (settled ys)"
    by (simp_all add: settled_append)
  with evs that show ?thesis by blast
qed

subsection \<open>The concrete rounds, evaluated\<close>

lemma scenario_run:
  "run scenario_events
     (startGeneration ''a cat'' [''alpha'', ''beta''] [''alpha'' \<mapsto> ''m1'', ''beta'' \<mapsto> ''m2''] 0 empty_state)
   = Some scenario_final"
  by (simp add: scenario_events_def scenario_final_def empty_state_def ok_response_def
      startGeneration_def mk_task_def fromEntries_def generateImage_def tryBody_def catchBody_def
      set_slot_def Let_def fun_upd_twist)

lemma scenario_run_settled:
  "run (butlast scenario_events)
     (startGeneration ''a cat'' [''alpha'', ''beta''] [''alpha'' \<mapsto> ''m1'', ''beta'' \<mapsto> ''m2''] 0 empty_state)
   = Some scenario_settled"
  by (simp add: scenario_events_def scenario_settled_def scenario_final_def empty_state_def ok_response_def
      startGeneration_def mk_task_def fromEntries_def generateImage_def tryBody_def catchBody_def
      set_slot_def Let_def fun_upd_twist)

lemma show_nat_429: "show_nat 429 = ''429''"
  by code_simp

lemma scenario_run_beta:
  "run [Settle ''beta'' (Rejects (Error ''rate limited'')) 10]
     (startGeneration ''a cat'' [''alpha'', ''beta''] [''alpha'' \<mapsto> ''m1'', ''beta'' \<mapsto> ''m2''] 0 empty_state)
   = Some scenario_beta_failed"
  by (simp add: scenario_beta_failed_def empty_state_def
      startGeneration_def mk_task_def fromEntries_def generateImage_def tryBody_def catchBody_def
      set_slot_def Let_def fun_upd_twist)

text \<open>A provider that is selected twice has two slots and two calls. When one call
  fails and the other then succeeds, the provider holds an image, is among the failed
  providers, and has a completion time: the properties of one provider below are about
  selections without repetition, or about providers of which no call has succeeded.\<close>

lemma repeated_selection:
  "run [Settle ''alpha'' (Rejects (Error ''rate limited'')) 10,
        Settle ''alpha'' (Responds (ok_response (Some ''url1''))) 50,
        Join]
     (startGeneration ''a cat'' [''alpha'', ''alpha''] [''alpha'' \<mapsto> ''m1''] 0 empty_state)
     = Some repeated_final
   \<and> length (slots_of ''alpha'' (st repeated_final)) = 2
   \<and> holds_image ''alpha'' (st repeated_final)
   \<and> ''alpha'' \<in> set (failedProviders (st repeated_final))"
  by (simp add: repeated_final_def empty_state_def ok_response_def holds_image_def slots_of_def
      startGeneration_def mk_task_def fromEntries_def generateImage_def tryBody_def catchBody_def
      set_slot_def Let_def)

section \<open>The claims\<close>


subsection \<open>Completeness of a round\<close>

text \<open>Claim C1 as stated fails: with the one provider \<open>alpha\<close>, whose call succeeds with
  a body that carries no \<open>image\<close>, \<open>startGeneration\<close> resolves and \<open>alpha\<close> neither
  holds an image nor is among the failed providers.\<close>

theorem completeness_counterexample:
  "run [Settle ''alpha'' (Responds (ok_response None)) 50, Join]
     (startGeneration ''a cat'' [''alpha''] [''alpha'' \<mapsto> ''m1''] 0 empty_state)
     = Some lone_no_image
   \<and> \<not> awaiting lone_no_image
   \<and> \<not> holds_image ''alpha'' (st lone_no_image)
   \<and> ''alpha'' \<notin> set (failedProviders (st lone_no_image))"
  by (simp add: lone_no_image_def empty_state_def ok_response_def holds_image_def
      startGeneration_def mk_task_def fromEntries_def generateImage_def tryBody_def
      set_slot_def Let_def)

text \<open>Claim C1, amended. For providers selected without repetition, once
  \<open>startGeneration\<close> has resolved every selected provider has exactly one Image Result
  slot and a Timing slot, and its one call has settled: the provider is among the failed
  providers exactly if that call failed, and holds an image exactly if that call succeeded
  with a body that carries an image. So it never is in both, and it is in neither exactly
  if the call succeeded without an image.\<close>

theorem completeness_amended:
  assumes "distinct providers"
    and "run evs (startGeneration prompt providers providerToModel now s) = Some c"
    and "\<not> awaiting c"
    and "p \<in> set providers"
  shows "length (slots_of p (st c)) = 1
       \<and> (\<exists>tm. timings (st c) p = Some tm)
       \<and> \<not> (holds_image p (st c) \<and> p \<in> set (failedProviders (st c)))
       \<and> (\<exists>oc t. Settle p oc t \<in> set evs
             \<and> (p \<in> set (failedProviders (st c)) \<longleftrightarrow> \<not> succeeds oc)
             \<and> (holds_image p (st c) \<longleftrightarrow> succeeds oc \<and> delivered oc \<noteq> None))"
proof -
  note inv = reach_inv [OF assms(2)]
  from inv assms(3) have pend: "pending c = []" by (simp add: round_inv_def)
  from inv have imgs: "map provider (images (st c)) = providers" by (simp add: round_inv_def)
  from slots_of_single [OF imgs assms(1,4)] have 1: "length (slots_of p (st c)) = 1" .
  from inv assms(4) have "p \<in> dom (timings (st c))" by (simp add: round_inv_def)
  then have 2: "\<exists>tm. timings (st c) p = Some tm" by blast
  from assms(2,1) pend assms(4) obtain xs oc t ys where evs: "evs = xs @ Settle p oc t # ys"
    and nxs: "p \<notin> set (settled xs)" and nys: "p \<notin> set (settled ys)"
    by (rule sole_settlement)
  have only: "oc' = oc" if "Settle p oc' t' \<in> set evs" for oc' t'
  proof -
    from that evs have "Settle p oc' t' \<in> set xs \<or> Settle p oc' t' = Settle p oc t \<or> Settle p oc' t' \<in> set ys"
      by auto
    moreover from nxs have "Settle p oc' t' \<notin> set xs" by (auto simp: settled_mem)
    moreover from nys have "Settle p oc' t' \<notin> set ys" by (auto simp: settled_mem)
    ultimately show ?thesis by simp
  qed
  from evs have here: "Settle p oc t \<in> set evs" by simp
  from failed_trace [OF assms(2)]
  have "p \<in> set (failedProviders (st c)) \<longleftrightarrow> (\<exists>oc' t'. Settle p oc' t' \<in> set evs \<and> \<not> succeeds oc')"
    by (simp add: start_fields)
  with only here have fl: "p \<in> set (failedProviders (st c)) \<longleftrightarrow> \<not> succeeds oc" by blast
  from assms(2) evs obtain c1 where "run xs (startGeneration prompt providers providerToModel now s) = Some c1"
    and r1: "run (Settle p oc t # ys) c1 = Some c"
    by (auto simp: run_append split: option.splits)
  from r1 obtain c2 where stp: "step (Settle p oc t) c1 = Some c2" and r2: "run ys c2 = Some c"
    by (rule run_ConsE)
  from stp obtain u s' where u: "t_provider u = p"
    and g: "generateImage u oc t (st c1) = Inr s'"
    and c2: "c2 = c1\<lparr>st := s', pending := remove1 u (pending c1)\<rparr>"
    by (cases rule: step_cases) simp_all
  from slots_frame [OF r2 nys] c2 have same: "slots_of p (st c) = slots_of p s'" by simp
  have own: "image item = delivered oc" if "item \<in> set (slots_of p (st c))" for item
    using that same gi_slots_own [OF g, of item] u by simp
  from 1 obtain item where item: "slots_of p (st c) = [item]"
    by (cases "slots_of p (st c)") simp_all
  with own [of item] have "image item = delivered oc" by simp
  with item have "holds_image p (st c) \<longleftrightarrow> delivered oc \<noteq> None"
    by (simp add: holds_image_slots)
  moreover have "delivered oc \<noteq> None \<longrightarrow> succeeds oc"
    by (cases "succeeds oc") (simp_all add: delivered_fail)
  ultimately have hi: "holds_image p (st c) \<longleftrightarrow> succeeds oc \<and> delivered oc \<noteq> None" by blast
  from fl hi have 3: "\<not> (holds_image p (st c) \<and> p \<in> set (failedProviders (st c)))" by blast
  from 1 2 3 here fl hi show ?thesis by blast
qed

theorem completeness_amended_witness:
  "distinct [''alpha'', ''beta'']
   \<and> run scenario_events
     (startGeneration ''a cat'' [''alpha'', ''beta''] [''alpha'' \<mapsto> ''m1'', ''beta'' \<mapsto> ''m2''] 0 empty_state)
     = Some scenario_final
   \<and> \<not> awaiting scenario_final
   \<and> length (slots_of ''alpha'' (st scenario_final)) = 1
   \<and> length (slots_of ''beta'' (st scenario_final)) = 1
   \<and> holds_image ''alpha'' (st scenario_final)
   \<and> ''alpha'' \<notin> set (failedProviders (st scenario_final))
   \<and> \<not> holds_image ''beta'' (st scenario_final)
   \<and> ''beta'' \<in> set (failedProviders (st scenario_final))"
proof -
  have d: "distinct [''alpha'', ''beta'']" by simp
  have a: "\<not> awaiting scenario_final" by (simp add: scenario_final_def)
  have ia: "''alpha'' \<in> set [''alpha'', ''beta'']" and ib: "''beta'' \<in> set [''alpha'', ''beta'']"
    by simp_all
  from completeness_amended [OF d scenario_run a ia] completeness_amended [OF d scenario_run a ib]
    d scenario_run a
  show ?thesis
    by (simp add: scenario_final_def holds_image_def slots_of_def)
qed

subsection \<open>What a new round does to the slots\<close>

text \<open>Claim C2 as stated fails: after a round that left a slot and a timing for
  \<open>gamma\<close>, a call of \<open>startGeneration\<close> with the selection \<open>[alpha]\<close> leaves neither.\<close>

theorem selection_frame_counterexample:
  "slots_of ''gamma'' previous_round = [\<lparr>provider = ''gamma'', image = Some ''old'', modelId = Some ''m3''\<rparr>]
   \<and> slots_of ''gamma'' (st (startGeneration ''a cat'' [''alpha''] [''alpha'' \<mapsto> ''m1''] 100 previous_round)) = []
   \<and> timings previous_round ''gamma'' = Some \<lparr>startTime = 0, completionTime = Some 7, elapsed = Some 7\<rparr>
   \<and> timings (st (startGeneration ''a cat'' [''alpha''] [''alpha'' \<mapsto> ''m1''] 100 previous_round)) ''gamma'' = None"
  by (simp add: slots_of_def previous_round_def startGeneration_def Let_def fromEntries_def)

text \<open>Claim C2, amended. \<open>startGeneration\<close> replaces both collections as a whole: the
  images become one fresh slot per entry of the selection, in its order, and the timings
  become the shared start instant for exactly the selected providers. At every point of the
  round the images are the slots of the selection and the timings are defined exactly on
  it; a provider outside the selection has no slot and no timing, whatever an earlier
  round left.\<close>

theorem selection_replaces_slots:
  assumes "run evs (startGeneration prompt providers providerToModel now s) = Some c"
  shows "images (st (startGeneration prompt providers providerToModel now s)) =
           map (\<lambda>p. \<lparr>provider = p, image = None, modelId = providerToModel p\<rparr>) providers
       \<and> timings (st (startGeneration prompt providers providerToModel now s)) =
           (\<lambda>q. if q \<in> set providers
                 then Some \<lparr>startTime = now, completionTime = None, elapsed = None\<rparr> else None)
       \<and> map provider (images (st c)) = providers
       \<and> dom (timings (st c)) = set providers
       \<and> (p \<notin> set providers \<longrightarrow> slots_of p (st c) = [] \<and> timings (st c) p = None)"
proof -
  note inv = reach_inv [OF assms]
  have 1: "images (st (startGeneration prompt providers providerToModel now s)) =
           map (\<lambda>p. \<lparr>provider = p, image = None, modelId = providerToModel p\<rparr>) providers"
    by (simp add: start_fields)
  have 2: "timings (st (startGeneration prompt providers providerToModel now s)) =
           (\<lambda>q. if q \<in> set providers
                 then Some \<lparr>startTime = now, completionTime = None, elapsed = None\<rparr> else None)"
    by (rule ext) (simp add: start_fields fresh_timing_def)
  from inv have 3: "map provider (images (st c)) = providers"
    and 4: "dom (timings (st c)) = set providers"
    by (simp_all add: round_inv_def)
  have 5: "slots_of p (st c) = [] \<and> timings (st c) p = None" if "p \<notin> set providers"
  proof -
    from that 4 have "p \<notin> dom (timings (st c))" by simp
    then have "timings (st c) p = None" by (simp add: domIff)
    with slots_of_absent [OF 3 that] show ?thesis by simp
  qed
  from 1 2 3 4 5 show ?thesis by blast
qed

theorem selection_replaces_slots_witness:
  "run [Settle ''alpha'' (Responds (ok_response (Some ''url1''))) 150]
     (startGeneration ''a cat'' [''alpha''] [''alpha'' \<mapsto> ''m1''] 100 previous_round)
   = Some \<lparr>st = \<lparr>images = [\<lparr>provider = ''alpha'', image = Some ''url1'', modelId = Some ''m1''\<rparr>],
                  errors = [],
                  timings = [''alpha'' \<mapsto> \<lparr>startTime = 100, completionTime = Some 150, elapsed = Some 50\<rparr>],
                  failedProviders = [],
                  isLoading = True\<rparr>,
            pending = [], awaiting = True, rejected = False\<rparr>
   \<and> ''gamma'' \<notin> set [''alpha'']
   \<and> slots_of ''gamma''
        \<lparr>images = [\<lparr>provider = ''alpha'', image = Some ''url1'', modelId = Some ''m1''\<rparr>],
         errors = [],
         timings = [''alpha'' \<mapsto> \<lparr>startTime = 100, completionTime = Some 150, elapsed = Some 50\<rparr>],
         failedProviders = [],
         isLoading = True\<rparr> = []"
proof -
  have r: "run [Settle ''alpha'' (Responds (ok_response (Some ''url1''))) 150]
     (startGeneration ''a cat'' [''alpha''] [''alpha'' \<mapsto> ''m1''] 100 previous_round)
   = Some \<lparr>st = \<lparr>images = [\<lparr>provider = ''alpha'', image = Some ''url1'', modelId = Some ''m1''\<rparr>],
                  errors = [],
                  timings = [''alpha'' \<mapsto> \<lparr>startTime = 100, completionTime = Some 150, elapsed = Some 50\<rparr>],
                  failedProviders = [],
                  isLoading = True\<rparr>,
            pending = [], awaiting = True, rejected = False\<rparr>"
    by (simp add: previous_round_def ok_response_def
      startGeneration_def mk_task_def fromEntries_def generateImage_def tryBody_def
      set_slot_def Let_def)
  from selection_replaces_slots [OF r, of "''gamma''"] r show ?thesis by simp
qed

subsection \<open>Failed providers and errors\<close>

text \<open>Claim C3. At every point of a round, from the moment \<open>startGeneration\<close> has cleared
  both collections, a provider is among the failed providers if and only if an entry of
  the errors names it; the two lists name the same providers in the same order, and they
  are exactly the providers whose call has failed so far in this round.\<close>

theorem failed_iff_error:
  assumes "run evs (startGeneration prompt providers providerToModel now s) = Some c"
  shows "(p \<in> set (failedProviders (st c)) \<longleftrightarrow> (\<exists>e \<in> set (errors (st c)). err_provider e = p))
       \<and> failedProviders (st c) = map err_provider (errors (st c))
       \<and> (p \<in> set (failedProviders (st c)) \<longleftrightarrow> (\<exists>oc t. Settle p oc t \<in> set evs \<and> \<not> succeeds oc))"
proof -
  from reach_inv [OF assms] have eq: "failedProviders (st c) = map err_provider (errors (st c))"
    by (simp add: round_inv_def)
  then have "set (failedProviders (st c)) = err_provider ` set (errors (st c))" by simp
  then have 1: "p \<in> set (failedProviders (st c)) \<longleftrightarrow> (\<exists>e \<in> set (errors (st c)). err_provider e = p)"
    by auto
  from failed_trace [OF assms]
  have 2: "p \<in> set (failedProviders (st c)) \<longleftrightarrow> (\<exists>oc t. Settle p oc t \<in> set evs \<and> \<not> succeeds oc)"
    by (simp add: start_fields)
  from 1 eq 2 show ?thesis by blast
qed

theorem failed_iff_error_witness:
  "run scenario_events
     (startGeneration ''a cat'' [''alpha'', ''beta''] [''alpha'' \<mapsto> ''m1'', ''beta'' \<mapsto> ''m2''] 0 empty_state)
     = Some scenario_final
   \<and> ''beta'' \<in> set (failedProviders (st scenario_final))
   \<and> (\<exists>e \<in> set (errors (st scenario_final)). err_provider e = ''beta'')
   \<and> ''alpha'' \<notin> set (failedProviders (st scenario_final))
   \<and> \<not> (\<exists>e \<in> set (errors (st scenario_final)). err_provider e = ''alpha'')"
  using failed_iff_error [OF scenario_run, of "''beta''"] failed_iff_error [OF scenario_run, of "''alpha''"]
    scenario_run
  by (simp add: scenario_final_def)

subsection \<open>\<open>isLoading\<close> and the join\<close>

text \<open>Claim C4. \<open>startGeneration\<close> sets \<open>isLoading\<close> before it suspends; from then on
  \<open>isLoading\<close> is true exactly as long as \<open>startGeneration\<close> is suspended at its join.
  When it is false, no call is pending, every dispatched call has settled and the join has
  run. When no call is pending and it is still true, the join can run and makes it false;
  once false, nothing more happens in the round.\<close>

theorem isLoading_join:
  assumes "run evs (startGeneration prompt providers providerToModel now s) = Some c"
  shows "isLoading (st (startGeneration prompt providers providerToModel now s))
       \<and> (isLoading (st c) \<longleftrightarrow> awaiting c)
       \<and> (\<not> isLoading (st c) \<longrightarrow>
            pending c = [] \<and> mset (settled evs) = mset providers \<and> Join \<in> set evs)
       \<and> (pending c = [] \<and> isLoading (st c) \<longrightarrow>
            (\<exists>c'. step Join c = Some c' \<and> \<not> isLoading (st c') \<and> pending c' = []))
       \<and> (\<not> isLoading (st c) \<longrightarrow> (\<forall>e. step e c = None))"
proof -
  note inv = reach_inv [OF assms]
  have 1: "isLoading (st (startGeneration prompt providers providerToModel now s))"
    by (simp add: start_fields)
  from inv have 2: "isLoading (st c) \<longleftrightarrow> awaiting c" by (simp add: round_inv_def)
  have 3: "pending c = [] \<and> mset (settled evs) = mset providers \<and> Join \<in> set evs"
    if "\<not> isLoading (st c)"
  proof -
    from that 2 have na: "\<not> awaiting c" by simp
    with inv have p: "pending c = []" by (simp add: round_inv_def)
    with settled_all [OF assms] have "mset (settled evs) = mset providers" by simp
    moreover have "Join \<in> set evs"
      by (rule join_trace [OF assms _ na]) (simp add: start_fields)
    ultimately show ?thesis using p by simp
  qed
  have 4: "\<exists>c'. step Join c = Some c' \<and> \<not> isLoading (st c') \<and> pending c' = []"
    if "pending c = [] \<and> isLoading (st c)"
  proof -
    from that 2 have "pending c = []" "awaiting c" by simp_all
    from join_enabled [OF this] that show ?thesis by simp
  qed
  have 5: "\<forall>e. step e c = None" if "\<not> isLoading (st c)"
  proof -
    from that 2 have "\<not> awaiting c" by simp
    with inv show ?thesis by (blast intro: round_over)
  qed
  from 1 2 3 4 5 show ?thesis by blast
qed

theorem isLoading_join_witness:
  "run scenario_events
     (startGeneration ''a cat'' [''alpha'', ''beta''] [''alpha'' \<mapsto> ''m1'', ''beta'' \<mapsto> ''m2''] 0 empty_state)
     = Some scenario_final
   \<and> \<not> isLoading (st scenario_final)
   \<and> pending scenario_final = []
   \<and> mset (settled scenario_events) = mset [''alpha'', ''beta'']
   \<and> Join \<in> set scenario_events
   \<and> step Join scenario_final = None
   \<and> run (butlast scenario_events)
     (startGeneration ''a cat'' [''alpha'', ''beta''] [''alpha'' \<mapsto> ''m1'', ''beta'' \<mapsto> ''m2''] 0 empty_state)
     = Some scenario_settled
   \<and> pending scenario_settled = []
   \<and> isLoading (st scenario_settled)
   \<and> step Join scenario_settled = Some scenario_final"
  using isLoading_join [OF scenario_run] isLoading_join [OF scenario_run_settled]
    scenario_run scenario_run_settled
  by (simp add: scenario_final_def scenario_settled_def)

subsection \<open>\<open>resetState\<close>\<close>

text \<open>Claim C5. \<open>resetState\<close> is idempotent: twice in a row is the same as once, and
  after it the images, the errors and the failed providers are empty, the timings are the
  registry's empty record and \<open>isLoading\<close> is false.\<close>

theorem resetState_idempotent:
  "resetState emptyRecord (resetState emptyRecord s) = resetState emptyRecord s
   \<and> images (resetState emptyRecord s) = []
   \<and> errors (resetState emptyRecord s) = []
   \<and> timings (resetState emptyRecord s) = emptyRecord
   \<and> failedProviders (resetState emptyRecord s) = []
   \<and> isLoading (resetState emptyRecord s) = False"
  by (simp add: resetState_def)

subsection \<open>Failures stay inside the unit of work\<close>

text \<open>Claim C6. Whatever the endpoint call of a provider comes to, \<open>generateImage\<close>
  fulfils: a value thrown by the call, and the \<open>Error\<close> the function throws itself on a
  response that is not ok, reach its \<open>catch\<close>, which appends the provider to the failed
  providers and an entry to the errors. So in a round no promise that \<open>startGeneration\<close>
  waits for has rejected, every pending call can settle with every outcome, and once none
  is pending the join runs and leaves \<open>isLoading\<close> false.\<close>

theorem failures_contained:
  assumes "run evs (startGeneration prompt providers providerToModel now s) = Some c"
  shows "(\<exists>s'. generateImage u oc t s0 = Inr s')
       \<and> tryBody u (Rejects thr) t s0 = Inl thr
       \<and> (\<not> ok r \<longrightarrow> tryBody u (Responds r) t s0 = Inl (Error (server_message r)))
       \<and> (\<not> succeeds oc \<longrightarrow>
            (\<exists>err. tryBody u oc t s0 = Inl err
               \<and> generateImage u oc t s0 = Inr (catchBody u err s0)
               \<and> errors (catchBody u err s0) =
                   errors s0 @ [\<lparr>err_provider = t_provider u, message = error_message err\<rparr>]
               \<and> failedProviders (catchBody u err s0) = failedProviders s0 @ [t_provider u]))
       \<and> \<not> rejected c
       \<and> (\<forall>v \<in> set (pending c). \<exists>c'. step (Settle (t_provider v) oc t) c = Some c' \<and> \<not> rejected c')
       \<and> (pending c = [] \<and> awaiting c \<longrightarrow>
            (\<exists>c'. step Join c = Some c' \<and> \<not> awaiting c' \<and> \<not> isLoading (st c') \<and> \<not> rejected c'))"
proof -
  note inv = reach_inv [OF assms]
  have 1: "\<exists>s'. generateImage u oc t s0 = Inr s'" by (rule generateImage_total)
  have 2: "tryBody u (Rejects thr) t s0 = Inl thr" by (simp add: tryBody_def)
  have 3: "\<not> ok r \<longrightarrow> tryBody u (Responds r) t s0 = Inl (Error (server_message r))"
    by (simp add: tryBody_def)
  have 4: "\<exists>err. tryBody u oc t s0 = Inl err
               \<and> generateImage u oc t s0 = Inr (catchBody u err s0)
               \<and> errors (catchBody u err s0) =
                   errors s0 @ [\<lparr>err_provider = t_provider u, message = error_message err\<rparr>]
               \<and> failedProviders (catchBody u err s0) = failedProviders s0 @ [t_provider u]"
    if "\<not> succeeds oc"
    using generateImage_fail [OF that, of u t s0] by (simp add: catchBody_fields)
  from inv have 5: "\<not> rejected c" by (simp add: round_inv_def)
  have 6: "\<exists>c'. step (Settle (t_provider v) oc t) c = Some c' \<and> \<not> rejected c'"
    if "v \<in> set (pending c)" for v
  proof -
    from that obtain w s' where
      "step (Settle (t_provider v) oc t) c = Some (c\<lparr>st := s', pending := remove1 w (pending c)\<rparr>)"
      by (rule step_enabled)
    with 5 show ?thesis by simp
  qed
  have 7: "\<exists>c'. step Join c = Some c' \<and> \<not> awaiting c' \<and> \<not> isLoading (st c') \<and> \<not> rejected c'"
    if "pending c = [] \<and> awaiting c"
  proof -
    from that have "pending c = []" "awaiting c" by simp_all
    from join_enabled [OF this] 5 show ?thesis by simp
  qed
  from 1 2 3 4 5 6 7 show ?thesis by blast
qed

theorem failures_contained_witness:
  "run (butlast scenario_events)
     (startGeneration ''a cat'' [''alpha'', ''beta''] [''alpha'' \<mapsto> ''m1'', ''beta'' \<mapsto> ''m2''] 0 empty_state)
     = Some scenario_settled
   \<and> \<not> succeeds (Responds (error_response 429 None))
   \<and> tryBody (mk_task ''a cat'' [''alpha'' \<mapsto> ''m1'', ''beta'' \<mapsto> ''m2''] 0 ''beta'')
        (Responds (error_response 429 None)) 10 empty_state = Inl (Error ''Server error: 429'')
   \<and> generateImage (mk_task ''a cat'' [''alpha'' \<mapsto> ''m1'', ''beta'' \<mapsto> ''m2''] 0 ''beta'')
        (Responds (error_response 429 None)) 10 empty_state
      = Inr (catchBody (mk_task ''a cat'' [''alpha'' \<mapsto> ''m1'', ''beta'' \<mapsto> ''m2''] 0 ''beta'')
               (Error ''Server error: 429'') empty_state)
   \<and> pending scenario_settled = [] \<and> awaiting scenario_settled \<and> \<not> rejected scenario_settled
   \<and> step Join scenario_settled = Some scenario_final
   \<and> \<not> isLoading (st scenario_final)"
  using failures_contained [OF scenario_run_settled,
      of "mk_task ''a cat'' [''alpha'' \<mapsto> ''m1'', ''beta'' \<mapsto> ''m2''] 0 ''beta''"
         "Responds (error_response 429 None)" 10 empty_state NonError "error_response 429 None"]
    scenario_run_settled
  by (simp add: scenario_final_def scenario_settled_def error_response_def server_message_def
      tryBody_def show_nat_429)

subsection \<open>One start instant for the round\<close>

text \<open>Claim C7. \<open>startGeneration\<close> reads the clock once, and the Timing slot of every
  selected provider becomes that instant as \<open>startTime\<close>, without completion fields. At
  every point of the round every selected provider's slot still has that \<open>startTime\<close>,
  and a pending call that succeeds at the instant \<open>t\<close> writes
  \<open>completionTime = t\<close> and \<open>elapsed = t - now\<close>,
  measured from the shared instant of the round.\<close>

theorem shared_dispatch_instant:
  assumes "run evs (startGeneration prompt providers providerToModel now s) = Some c"
  shows "(\<forall>p \<in> set providers.
            timings (st (startGeneration prompt providers providerToModel now s)) p =
              Some \<lparr>startTime = now, completionTime = None, elapsed = None\<rparr>)
       \<and> (\<forall>p \<in> set providers. \<exists>tm. timings (st c) p = Some tm \<and> startTime tm = now)
       \<and> (\<forall>u \<in> set (pending c). succeeds oc \<longrightarrow>
            (\<exists>c'. step (Settle (t_provider u) oc t) c = Some c'
               \<and> timings (st c') (t_provider u) =
                   Some \<lparr>startTime = now, completionTime = Some t, elapsed = Some (t - now)\<rparr>))"
proof -
  note inv = reach_inv [OF assms]
  have 1: "\<forall>p \<in> set providers.
            timings (st (startGeneration prompt providers providerToModel now s)) p =
              Some \<lparr>startTime = now, completionTime = None, elapsed = None\<rparr>"
    by (simp add: start_fields fresh_timing_def)
  have 2: "\<exists>tm. timings (st c) p = Some tm \<and> startTime tm = now" if "p \<in> set providers" for p
  proof -
    from inv that have "p \<in> dom (timings (st c))" by (simp add: round_inv_def)
    then obtain tm where tm: "timings (st c) p = Some tm" by blast
    with inv have "startTime tm = now" unfolding round_inv_def by blast
    with tm show ?thesis by simp
  qed
  have 3: "\<exists>c'. step (Settle (t_provider u) oc t) c = Some c'
               \<and> timings (st c') (t_provider u) =
                   Some \<lparr>startTime = now, completionTime = Some t, elapsed = Some (t - now)\<rparr>"
    if u: "u \<in> set (pending c)" and ok: "succeeds oc" for u
  proof -
    from u obtain v s' where v: "t_provider v = t_provider u" "v \<in> set (pending c)"
      and g: "generateImage v oc t (st c) = Inr s'"
      and stp: "step (Settle (t_provider u) oc t) c = Some (c\<lparr>st := s', pending := remove1 v (pending c)\<rparr>)"
      by (rule step_enabled)
    from pending_task(2) [OF assms v(2)] have "t_startTime v = now" .
    with ok v(1) have "timings s' (t_provider u) = Some (done_timing now t)"
      by (simp add: gi_timings [OF g])
    with stp show ?thesis by (simp add: done_timing_def)
  qed
  from 1 2 3 show ?thesis by blast
qed

theorem shared_dispatch_instant_witness:
  "run [Settle ''beta'' (Rejects (Error ''rate limited'')) 10]
     (startGeneration ''a cat'' [''alpha'', ''beta''] [''alpha'' \<mapsto> ''m1'', ''beta'' \<mapsto> ''m2''] 0 empty_state)
     = Some scenario_beta_failed
   \<and> mk_task ''a cat'' [''alpha'' \<mapsto> ''m1'', ''beta'' \<mapsto> ''m2''] 0 ''alpha'' \<in> set (pending scenario_beta_failed)
   \<and> succeeds (Responds (ok_response (Some ''url1'')))
   \<and> step (Settle ''alpha'' (Responds (ok_response (Some ''url1''))) 50) scenario_beta_failed
        = Some scenario_settled
   \<and> timings (st scenario_settled) ''alpha'' =
        Some \<lparr>startTime = 0, completionTime = Some 50, elapsed = Some 50\<rparr>"
  using shared_dispatch_instant [OF scenario_run_beta, of "Responds (ok_response (Some ''url1''))" 50]
    scenario_run_beta
  by (simp add: scenario_beta_failed_def scenario_settled_def scenario_final_def ok_response_def
      mk_task_def generateImage_def tryBody_def set_slot_def Let_def fun_upd_twist)

subsection \<open>No timing on the failure path\<close>

text \<open>Claim C8. The failure path of \<open>generateImage\<close> writes no timing. So in a round, a
  provider whose call has failed, and for which no call has succeeded, is among the failed
  providers and its Timing slot is as \<open>startGeneration\<close> set it: the shared start instant,
  without \<open>completionTime\<close> and without \<open>elapsed\<close>.\<close>

theorem failure_leaves_timing:
  assumes "run evs (startGeneration prompt providers providerToModel now s) = Some c"
    and "Settle p oc t \<in> set evs"
    and "\<And>oc' t'. Settle p oc' t' \<in> set evs \<Longrightarrow> \<not> succeeds oc'"
  shows "timings (st c) p = Some \<lparr>startTime = now, completionTime = None, elapsed = None\<rparr>
       \<and> p \<in> set (failedProviders (st c))
       \<and> (\<forall>err. timings (catchBody u err s0) = timings s0)
       \<and> (\<forall>s1. generateImage u oc t0 s0 = Inr s1 \<longrightarrow> timings s1 = timings s0)"
proof -
  from settled_in_providers [OF assms(1,2)] have p: "p \<in> set providers" .
  from timing_frame [OF assms(1), of p] assms(3)
  have "timings (st c) p = timings (st (startGeneration prompt providers providerToModel now s)) p"
    by blast
  with p have 1: "timings (st c) p = Some \<lparr>startTime = now, completionTime = None, elapsed = None\<rparr>"
    by (simp add: start_fields fresh_timing_def)
  from assms(3) [OF assms(2)] have nok: "\<not> succeeds oc" .
  with assms(2) failed_trace [OF assms(1)] have 2: "p \<in> set (failedProviders (st c))" by blast
  have 3: "\<forall>err. timings (catchBody u err s0) = timings s0" by (simp add: catchBody_fields)
  have 4: "\<forall>s1. generateImage u oc t0 s0 = Inr s1 \<longrightarrow> timings s1 = timings s0"
    using nok by (simp add: gi_timings)
  from 1 2 3 4 show ?thesis by blast
qed

theorem failure_leaves_timing_witness:
  "run scenario_events
     (startGeneration ''a cat'' [''alpha'', ''beta''] [''alpha'' \<mapsto> ''m1'', ''beta'' \<mapsto> ''m2''] 0 empty_state)
     = Some scenario_final
   \<and> Settle ''beta'' (Rejects (Error ''rate limited'')) 10 \<in> set scenario_events
   \<and> \<not> succeeds (Rejects (Error ''rate limited''))
   \<and> timings (st scenario_final) ''beta'' = Some \<lparr>startTime = 0, completionTime = None, elapsed = None\<rparr>
   \<and> ''beta'' \<in> set (failedProviders (st scenario_final))"
proof -
  have ev: "Settle ''beta'' (Rejects (Error ''rate limited'')) 10 \<in> set scenario_events"
    by (simp add: scenario_events_def)
  have all: "\<not> succeeds oc'" if "Settle ''beta'' oc' t' \<in> set scenario_events" for oc' t'
    using that by (auto simp: scenario_events_def)
  from failure_leaves_timing [OF scenario_run ev all] scenario_run ev show ?thesis by simp
qed

subsection \<open>The end-to-end scenario\<close>

text \<open>Claim C9. \<open>startGeneration("a cat", ["alpha","beta"], {alpha:"m1", beta:"m2"})\<close>, where
  beta's call fails first with the message "rate limited" (as a rejection carrying an
  \<open>Error\<close>, or as a non-ok response whose body carries that \<open>error\<close>) and alpha's call
  then succeeds with the image "url1": after the join the images are alpha's slot with
  "url1" and model "m1" followed by beta's slot without image and model "m2", the errors are
  the single entry for beta with "rate limited", the failed providers are \<open>[beta]\<close>, and
  \<open>isLoading\<close> is false. The clock readings and the state before the round are arbitrary.\<close>

theorem end_to_end_scenario:
  "map_option observed
     (run [Settle ''beta'' (Rejects (Error ''rate limited'')) t_beta,
           Settle ''alpha'' (Responds (ok_response (Some ''url1''))) t_alpha,
           Join]
        (startGeneration ''a cat'' [''alpha'', ''beta''] [''alpha'' \<mapsto> ''m1'', ''beta'' \<mapsto> ''m2''] now s))
   = Some ([\<lparr>provider = ''alpha'', image = Some ''url1'', modelId = Some ''m1''\<rparr>,
            \<lparr>provider = ''beta'', image = None, modelId = Some ''m2''\<rparr>],
           [\<lparr>err_provider = ''beta'', message = ''rate limited''\<rparr>],
           [''beta''],
           False)
   \<and>
   map_option observed
     (run [Settle ''beta'' (Responds (error_response code (Some ''rate limited''))) t_beta,
           Settle ''alpha'' (Responds (ok_response (Some ''url1''))) t_alpha,
           Join]
        (startGeneration ''a cat'' [''alpha'', ''beta''] [''alpha'' \<mapsto> ''m1'', ''beta'' \<mapsto> ''m2''] now s))
   = Some ([\<lparr>provider = ''alpha'', image = Some ''url1'', modelId = Some ''m1''\<rparr>,
            \<lparr>provider = ''beta'', image = None, modelId = Some ''m2''\<rparr>],
           [\<lparr>err_provider = ''beta'', message = ''rate limited''\<rparr>],
           [''beta''],
           False)"
  by (simp add: observed_def ok_response_def error_response_def server_message_def
      startGeneration_def mk_task_def fromEntries_def generateImage_def tryBody_def catchBody_def
      set_slot_def Let_def)

subsection \<open>A success without an image\<close>

text \<open>Claim C10. When a pending call succeeds with a response whose body carries no
  \<open>image\<close>, every Image Result slot of its provider has \<open>image\<close> absent, the provider's
  Timing slot has \<open>completionTime\<close> and \<open>elapsed\<close> recorded, and the errors and the
  failed providers are as they were: the provider holds no image and, when no provider was
  selected twice, is not among the failed providers.\<close>

theorem success_without_image:
  assumes "run evs (startGeneration prompt providers providerToModel now s) = Some c"
    and "u \<in> set (pending c)" and "ok r" and "data_image (data r) = None"
  shows "\<exists>c'. step (Settle (t_provider u) (Responds r) t) c = Some c'
           \<and> (\<forall>item \<in> set (slots_of (t_provider u) (st c')). image item = None)
           \<and> \<not> holds_image (t_provider u) (st c')
           \<and> timings (st c') (t_provider u) =
               Some \<lparr>startTime = now, completionTime = Some t, elapsed = Some (t - now)\<rparr>
           \<and> errors (st c') = errors (st c)
           \<and> failedProviders (st c') = failedProviders (st c)
           \<and> (distinct providers \<longrightarrow> t_provider u \<notin> set (failedProviders (st c')))"
proof -
  let ?oc = "Responds r"
  from assms(3) have ok: "succeeds ?oc" by simp
  from assms(3,4) have dl: "delivered ?oc = None" by simp
  from assms(2) obtain v s' where v: "t_provider v = t_provider u" "v \<in> set (pending c)"
    and g: "generateImage v ?oc t (st c) = Inr s'"
    and stp: "step (Settle (t_provider u) ?oc t) c = Some (c\<lparr>st := s', pending := remove1 v (pending c)\<rparr>)"
    by (rule step_enabled)
  have slots: "\<forall>item \<in> set (slots_of (t_provider u) s'). image item = None"
    using gi_slots_own [OF g] v(1) dl by simp
  then have noimg: "\<not> holds_image (t_provider u) s'"
    by (simp add: holds_image_slots)
  from pending_task(2) [OF assms(1) v(2)] have "t_startTime v = now" .
  with ok v(1) have tm: "timings s' (t_provider u) = Some (done_timing now t)"
    by (simp add: gi_timings [OF g])
  from ok have er: "errors s' = errors (st c)" by (simp add: gi_errors [OF g])
  from ok have fl: "failedProviders s' = failedProviders (st c)" by (simp add: gi_failed [OF g])
  have nf: "t_provider u \<notin> set (failedProviders s')" if d: "distinct providers"
  proof -
    from pending_not_settled [OF assms(1) d assms(2)] have "t_provider u \<notin> set (settled evs)" .
    then have "\<not> (\<exists>oc t. Settle (t_provider u) oc t \<in> set evs \<and> \<not> succeeds oc)"
      by (auto simp: settled_mem)
    with failed_trace [OF assms(1)] fl show ?thesis by (simp add: start_fields)
  qed
  from stp slots noimg tm er fl nf show ?thesis by (simp add: done_timing_def)
qed

theorem success_without_image_witness:
  "run [Settle ''beta'' (Rejects (Error ''rate limited'')) 10]
     (startGeneration ''a cat'' [''alpha'', ''beta''] [''alpha'' \<mapsto> ''m1'', ''beta'' \<mapsto> ''m2''] 0 empty_state)
     = Some scenario_beta_failed
   \<and> mk_task ''a cat'' [''alpha'' \<mapsto> ''m1'', ''beta'' \<mapsto> ''m2''] 0 ''alpha'' \<in> set (pending scenario_beta_failed)
   \<and> ok (ok_response None) \<and> data_image (data (ok_response None)) = None
   \<and> distinct [''alpha'', ''beta'']
   \<and> step (Settle ''alpha'' (Responds (ok_response None)) 50) scenario_beta_failed = Some scenario_no_image
   \<and> \<not> holds_image ''alpha'' (st scenario_no_image)
   \<and> ''alpha'' \<notin> set (failedProviders (st scenario_no_image))
   \<and> timings (st scenario_no_image) ''alpha'' =
        Some \<lparr>startTime = 0, completionTime = Some 50, elapsed = Some 50\<rparr>"
  using success_without_image [OF scenario_run_beta, of
      "mk_task ''a cat'' [''alpha'' \<mapsto> ''m1'', ''beta'' \<mapsto> ''m2''] 0 ''alpha''" "ok_response None" 50]
    scenario_run_beta
  by (simp add: scenario_beta_failed_def scenario_no_image_def ok_response_def
      mk_task_def generateImage_def tryBody_def set_slot_def Let_def fun_upd_twist holds_image_def)

end
